theory Spec2Isabelle
  imports
    Main
    "HOL-Library.Multiset"
    "HOL-Library.AList"
    "HOL-Library.Char_ord"
    "HOL-Library.List_Lexorder"
begin

section \<open>The reduce task of \<open>src/mapreduce/common_reduce.go\<close>\<close>

text \<open>
  \<open>doReduce\<close> opens the \<open>nMap\<close> intermediate files of one reduce task, decodes
  their key/value records into an in-memory map from key to value list, sorts the keys,
  opens the output file in append mode and writes one record per key, the value being
  the result of the caller's reduce function.

  The embedding makes the file system an explicit state, the panics of the code an
  outcome, and the loops recursive functions. Go strings are byte sequences and compare
  byte-wise; they are \<open>string\<close> here, ordered lexicographically by character code
  (\<open>List_Lexorder\<close> over \<open>Char_ord\<close>).
\<close>

subsection \<open>Records, files and the file system\<close>

text \<open>
  Modelled from the spec: the type \<open>KeyValue\<close> is declared outside
  \<open>common_reduce.go\<close>; the spec's Record is "an ordered pair (key: text, value: text)",
  and the code reads \<open>kv.Key\<close>, \<open>kv.Value\<close> and builds \<open>KeyValue{key, ...}\<close>.
\<close>

record KeyValue =
  Key :: string
  Value :: string

text \<open>
  The JSON encoding belongs to the library \<open>encoding/json\<close>. A file is represented by
  what successive calls of \<open>Decode(&kv)\<close> on it yield, \<open>kv\<close> being a \<open>*KeyValue\<close>:
  \<open>Rec r\<close> for a value that decodes to the record \<open>r\<close>, \<open>Null\<close> for the JSON value
  \<open>null\<close>, on which \<open>Decode\<close> returns no error and sets \<open>kv\<close> to nil, and \<open>Corrupt\<close>
  for bytes on which \<open>Decode\<close> returns an error other than end of stream. The end of
  the list is the end of the file, where \<open>Decode\<close> returns \<open>io.EOF\<close>.
\<close>

datatype item = Rec KeyValue | Null | Corrupt

type_synonym decoder = "item list"

datatype decode_error = EOF | Malformed

fun Decode :: "decoder \<Rightarrow> decode_error + (KeyValue option \<times> decoder)" where
  "Decode [] = Inl EOF"
| "Decode (Corrupt # d) = Inl Malformed"
| "Decode (Null # d) = Inr (None, d)"
| "Decode (Rec r # d) = Inr (Some r, d)"

text \<open>
  A path is absent, a regular file, or a path on which \<open>os.OpenFile\<close> fails in
  either mode (a directory, a file without permission, a path under a missing
  directory). Permissions that allow reading but not appending, or the converse, are
  not told apart.
\<close>

datatype node = Regular "item list" | Unopenable

type_synonym fs = "string \<rightharpoonup> node"

datatype os_error = NotExist | Denied

text \<open>\<open>os.OpenFile(fileName, os.O_RDONLY, 0600)\<close>: the decoder starts at the file's first byte.\<close>

definition openRead :: "fs \<Rightarrow> string \<Rightarrow> os_error + decoder" where
  "openRead fs p =
     (case fs p of
        None \<Rightarrow> Inl NotExist
      | Some Unopenable \<Rightarrow> Inl Denied
      | Some (Regular c) \<Rightarrow> Inr c)"

text \<open>
  \<open>os.OpenFile(outFile, os.O_CREATE|os.O_APPEND|os.O_WRONLY, 0600)\<close>: an absent file is
  created empty, an existing one is left as it is (there is no \<open>O_TRUNC\<close>).
\<close>

definition openAppend :: "fs \<Rightarrow> string \<Rightarrow> os_error + fs" where
  "openAppend fs p =
     (case fs p of
        None \<Rightarrow> Inr (fs(p \<mapsto> Regular []))
      | Some Unopenable \<Rightarrow> Inl Denied
      | Some (Regular c) \<Rightarrow> Inr fs)"

text \<open>\<open>encoder.Encode(kv)\<close> on a file opened with \<open>O_APPEND\<close>: the record goes to the end.\<close>

definition Encode :: "string \<Rightarrow> KeyValue \<Rightarrow> fs \<Rightarrow> fs" where
  "Encode p kv fs =
     (case fs p of
        Some (Regular c) \<Rightarrow> fs(p \<mapsto> Regular (c @ [Rec kv]))
      | _ \<Rightarrow> fs)"

text \<open>
  The state: the file system and two logs that record what the task did, the records
  decoded so far (\<open>reads\<close>) and the invocations of the reduce function with their
  arguments (\<open>calls\<close>), both in order.
\<close>

record world =
  files :: fs
  reads :: "KeyValue list"
  calls :: "(string \<times> string list) list"

datatype panic = MakesliceLenOutOfRange | NilDereference | FailedToOpen string

datatype outcome = Returned | Panicked panic

subsection \<open>The map from key to values\<close>

text \<open>
  \<open>kvs\<close> is a Go \<open>map[string][]string\<close>: an association list with one entry per key.
  Reading an absent key gives the nil slice.
\<close>

type_synonym groups = "(string \<times> string list) list"

definition lookup :: "groups \<Rightarrow> string \<Rightarrow> string list" where
  "lookup kvs k = (case map_of kvs k of None \<Rightarrow> [] | Some vs \<Rightarrow> vs)"

text \<open>\<open>kvs[kv.Key] = append(kvs[kv.Key], kv.Value)\<close>\<close>

definition appendValue :: "groups \<Rightarrow> KeyValue \<Rightarrow> groups" where
  "appendValue kvs kv = AList.update (Key kv) (lookup kvs (Key kv) @ [Value kv]) kvs"

subsection \<open>The loops of \<open>doReduce\<close>\<close>

text \<open>
  Lines 56 to 66: open the file of every map task \<open>i\<close>, \<open>0 \<le> i < nMap\<close>, and store its
  decoder at index \<open>i\<close>. The first file that does not open panics. \<open>reduceName\<close> is
  declared outside \<open>common_reduce.go\<close> and is a parameter.
\<close>

function openShards ::
  "(string \<Rightarrow> int \<Rightarrow> int \<Rightarrow> string) \<Rightarrow> fs \<Rightarrow> string \<Rightarrow> int \<Rightarrow> int \<Rightarrow> int \<Rightarrow>
   decoder option list \<Rightarrow> panic + decoder option list" where
  "openShards reduceName fs jobName reduceTask nMap i decoders =
     (if i < nMap then
        (let fileName = reduceName jobName i reduceTask in
         case openRead fs fileName of
           Inl err \<Rightarrow> Inl (FailedToOpen fileName)
         | Inr fd \<Rightarrow>
             openShards reduceName fs jobName reduceTask nMap (i + 1)
               (decoders[nat i := Some fd]))
      else Inr decoders)"
  by pat_completeness auto
termination
  by (relation "measure (\<lambda>(reduceName, fs, jobName, reduceTask, nMap, i, decoders). nat (nMap - i))")
     auto

text \<open>
  Lines 72 to 78: decode records until \<open>Decode\<close> returns an error, whichever it is, and
  append each value to the list of its key. Reading \<open>kv.Key\<close> through a nil \<open>kv\<close>
  panics.
\<close>

function scan :: "decoder \<Rightarrow> groups \<Rightarrow> world \<Rightarrow> (panic + groups) \<times> world" where
  "scan d kvs w =
     (case Decode d of
        Inl err \<Rightarrow> (Inr kvs, w)
      | Inr (kv, d') \<Rightarrow>
          (case kv of
             None \<Rightarrow> (Inl NilDereference, w)
           | Some r \<Rightarrow> scan d' (appendValue kvs r) (w\<lparr>reads := reads w @ [r]\<rparr>)))"
  by pat_completeness auto
termination
  by (relation "measure (\<lambda>(d, kvs, w). length d)") (auto elim: Decode.elims)

text \<open>
  Lines 70 to 79: scan the decoders in index order. A nil decoder would panic; after
  \<open>openShards\<close> every entry is set.
\<close>

function scanShards ::
  "decoder option list \<Rightarrow> int \<Rightarrow> int \<Rightarrow> groups \<Rightarrow> world \<Rightarrow> (panic + groups) \<times> world" where
  "scanShards decoders nMap i kvs w =
     (if i < nMap then
        (case decoders ! nat i of
           None \<Rightarrow> (Inl NilDereference, w)
         | Some d \<Rightarrow>
             (case scan d kvs w of
                (Inl p, w') \<Rightarrow> (Inl p, w')
              | (Inr kvs', w') \<Rightarrow> scanShards decoders nMap (i + 1) kvs' w'))
      else (Inr kvs, w))"
  by pat_completeness auto
termination
  by (relation "measure (\<lambda>(decoders, nMap, i, kvs, w). nat (nMap - i))") auto

text \<open>
  Lines 98 to 100: for each key, in the order of \<open>keys\<close>, call the reduce function on
  the key and its values and append the record to the output file.
\<close>

fun emit ::
  "(string \<Rightarrow> string list \<Rightarrow> string) \<Rightarrow> groups \<Rightarrow> string \<Rightarrow> string list \<Rightarrow> world \<Rightarrow> world" where
  "emit reduceF kvs outFile [] w = w"
| "emit reduceF kvs outFile (key # keys) w =
     emit reduceF kvs outFile keys
       (w\<lparr>calls := calls w @ [(key, lookup kvs key)],
          files := Encode outFile \<lparr>Key = key, Value = reduceF key (lookup kvs key)\<rparr> (files w)\<rparr>)"

subsection \<open>\<open>doReduce\<close>\<close>

text \<open>
  \<open>for k := range kvs\<close> visits the keys of the map in an order the Go runtime chooses.
  The choice is the parameter \<open>rangeOrder\<close>, applied to the keys in insertion order;
  \<open>rearranges\<close> says that it returns the same keys, each as often, in some order.
  \<open>sort.Strings\<close> sorts in increasing order; since the order on strings is total, its
  result is the one sorted arrangement of the keys, which \<open>sort\<close> computes.

  \<open>make([]*json.Decoder, nMap)\<close> panics for a negative length. \<open>log.Panicf\<close> panics
  after logging; the \<open>return\<close> that follows it is not reached.
\<close>

definition rearranges :: "(string list \<Rightarrow> string list) \<Rightarrow> bool" where
  "rearranges rangeOrder \<longleftrightarrow> (\<forall>ks. mset (rangeOrder ks) = mset ks)"

definition doReduce ::
  "(string list \<Rightarrow> string list) \<Rightarrow> (string \<Rightarrow> int \<Rightarrow> int \<Rightarrow> string) \<Rightarrow>
   string \<Rightarrow> int \<Rightarrow> string \<Rightarrow> int \<Rightarrow> (string \<Rightarrow> string list \<Rightarrow> string) \<Rightarrow>
   world \<Rightarrow> outcome \<times> world" where
  "doReduce rangeOrder reduceName jobName reduceTask outFile nMap reduceF w =
     (if nMap < 0 then (Panicked MakesliceLenOutOfRange, w)
      else
        case openShards reduceName (files w) jobName reduceTask nMap 0
               (replicate (nat nMap) None) of
          Inl p \<Rightarrow> (Panicked p, w)
        | Inr decoders \<Rightarrow>
            (case scanShards decoders nMap 0 [] w of
               (Inl p, w1) \<Rightarrow> (Panicked p, w1)
             | (Inr kvs, w1) \<Rightarrow>
                 (let keys = sort (rangeOrder (map fst kvs)) in
                  case openAppend (files w1) outFile of
                    Inl err \<Rightarrow> (Panicked (FailedToOpen outFile), w1)
                  | Inr fs' \<Rightarrow>
                      (Returned, emit reduceF kvs outFile keys (w1\<lparr>files := fs'\<rparr>)))))"

subsection \<open>What the task computes, stated on lists of records\<close>

text \<open>
  The records at the head of a file, up to its first item that is not a record, and
  whether the file ends there or goes on with an item on which \<open>Decode\<close> returns an
  error.
\<close>

fun decoded :: "item list \<Rightarrow> KeyValue list" where
  "decoded (Rec r # d) = r # decoded d"
| "decoded d = []"

fun decodes :: "item list \<Rightarrow> bool" where
  "decodes [] = True"
| "decodes (Corrupt # d) = True"
| "decodes (Null # d) = False"
| "decodes (Rec r # d) = decodes d"

text \<open>
  The records of all shards, in ascending shard index and, within a shard, in the order
  of the file.
\<close>

definition inputs :: "item list list \<Rightarrow> KeyValue list" where
  "inputs cs = concat (map decoded cs)"

text \<open>The values of a key in a list of records, in the order of the list.\<close>

definition valuesOf :: "string \<Rightarrow> KeyValue list \<Rightarrow> string list" where
  "valuesOf k recs = map Value (filter (\<lambda>kv. Key kv = k) recs)"

text \<open>The distinct keys of a list of records, in increasing order.\<close>

definition keysOf :: "KeyValue list \<Rightarrow> string list" where
  "keysOf recs = sort (remdups (map Key recs))"

text \<open>One invocation of the reduce function and one output record per distinct key.\<close>

definition invocations :: "KeyValue list \<Rightarrow> (string \<times> string list) list" where
  "invocations recs = map (\<lambda>k. (k, valuesOf k recs)) (keysOf recs)"

definition reduced :: "(string \<Rightarrow> string list \<Rightarrow> string) \<Rightarrow> KeyValue list \<Rightarrow> KeyValue list" where
  "reduced reduceF recs =
     map (\<lambda>k. \<lparr>Key = k, Value = reduceF k (valuesOf k recs)\<rparr>) (keysOf recs)"

text \<open>The content of a path: that of the regular file there, empty otherwise.\<close>

definition content :: "fs \<Rightarrow> string \<Rightarrow> item list" where
  "content fs p = (case fs p of Some (Regular c) \<Rightarrow> c | _ \<Rightarrow> [])"

text \<open>
  Go compares strings byte by byte: the first differing byte decides, and a proper
  prefix is smaller.
\<close>

fun lessBytes :: "string \<Rightarrow> string \<Rightarrow> bool" where
  "lessBytes [] [] = False"
| "lessBytes [] (y # ys) = True"
| "lessBytes (x # xs) [] = False"
| "lessBytes (x # xs) (y # ys) =
     ((of_char x :: nat) < of_char y \<or> (x = y \<and> lessBytes xs ys))"

subsection \<open>A job for the examples\<close>

text \<open>
  Modelled from the spec: the reduce function of the spec's Scenario A, "sum-as-text",
  belongs to the caller. It reads its values as decimal numerals and returns the
  numeral of their sum.
\<close>

definition digit :: "nat \<Rightarrow> char" where
  "digit n = char_of (48 + n)"

function itoa :: "nat \<Rightarrow> string" where
  "itoa n = (if n < 10 then [digit n] else itoa (n div 10) @ [digit (n mod 10)])"
  by pat_completeness auto
termination
  by (relation "measure id") auto

definition atoi :: "string \<Rightarrow> nat" where
  "atoi s = foldl (\<lambda>n c. 10 * n + (of_char c - 48)) 0 s"

definition sumAsText :: "string \<Rightarrow> string list \<Rightarrow> string" where
  "sumAsText key values = itoa (sum_list (map atoi values))"

text \<open>A naming of the intermediate files, by job and map task.\<close>

definition exampleName :: "string \<Rightarrow> int \<Rightarrow> int \<Rightarrow> string" where
  "exampleName jobName mapTask reduceTask =
     jobName @ (if mapTask = 0 then ''-0'' else if mapTask = 1 then ''-1'' else ''-n'')"

text \<open>The shards of Scenario A, and file systems that hold them.\<close>

definition a1 :: KeyValue where "a1 = \<lparr>Key = ''a'', Value = ''1''\<rparr>"
definition b2 :: KeyValue where "b2 = \<lparr>Key = ''b'', Value = ''2''\<rparr>"
definition a3 :: KeyValue where "a3 = \<lparr>Key = ''a'', Value = ''3''\<rparr>"

definition worldA :: world where
  "worldA =
     \<lparr>files = [''job-0'' \<mapsto> Regular [Rec a1, Rec b2], ''job-1'' \<mapsto> Regular [Rec a3]],
      reads = [], calls = []\<rparr>"

text \<open>Shard 1 goes on after its record with bytes that do not decode.\<close>

definition worldCorrupt :: world where
  "worldCorrupt =
     \<lparr>files = [''job-0'' \<mapsto> Regular [Rec a1, Rec b2],
               ''job-1'' \<mapsto> Regular [Rec a3, Corrupt, Rec b2]],
      reads = [], calls = []\<rparr>"

text \<open>Shard 1 is missing.\<close>

definition worldMissing :: world where
  "worldMissing =
     \<lparr>files = [''job-0'' \<mapsto> Regular [Rec a1, Rec b2]], reads = [], calls = []\<rparr>"

text \<open>The output path cannot be opened.\<close>

definition worldNoOutput :: world where
  "worldNoOutput =
     \<lparr>files = [''job-0'' \<mapsto> Regular [Rec a1, Rec b2], ''job-1'' \<mapsto> Regular [Rec a3],
               ''out'' \<mapsto> Unopenable],
      reads = [], calls = []\<rparr>"

declare openShards.simps [simp del] scan.simps [simp del] scanShards.simps [simp del]
  itoa.simps [simp del]

section \<open>Properties of the loops\<close>

subsection \<open>Scanning one shard\<close>

lemma scan_char:
  "decodes d \<Longrightarrow>
   scan d kvs w = (Inr (foldl appendValue kvs (decoded d)), w\<lparr>reads := reads w @ decoded d\<rparr>)"
proof (induction d arbitrary: kvs w rule: decodes.induct)
  case 1
  show ?case by (subst scan.simps) simp
next
  case (2 d)
  show ?case by (subst scan.simps) simp
next
  case (3 d)
  then show ?case by simp
next
  case (4 r d)
  then show ?case by (subst scan.simps) simp
qed

text \<open>A \<open>null\<close> in a shard stops the scan with a panic.\<close>

lemma scan_null: "scan (Null # d) kvs w = (Inl NilDereference, w)"
  by (subst scan.simps) simp

lemma decoded_records: "decoded (map Rec rs @ rest) = rs @ decoded rest"
  by (induction rs) simp_all

lemma decodes_records: "decodes (map Rec rs @ rest) = decodes rest"
  by (induction rs) simp_all

lemma Decode_fails: "isl (Decode rest) \<Longrightarrow> decodes rest \<and> decoded rest = []"
  by (cases rest rule: Decode.cases) simp_all

lemma inputs_records: "inputs (map (map Rec) shards) = concat shards"
proof -
  have "decoded (map Rec rs) = rs" for rs
    using decoded_records[of rs "[]"] by simp
  then show ?thesis by (simp add: inputs_def comp_def)
qed

lemma decodes_clean: "c \<in> set (map (map Rec) shards) \<Longrightarrow> decodes c"
  using decodes_records[of _ "[]"] by auto

subsection \<open>The map from key to values after a scan\<close>

lemma lookup_appendValue:
  "lookup (appendValue kvs r) k =
     (if Key r = k then lookup kvs k @ [Value r] else lookup kvs k)"
  by (simp add: lookup_def appendValue_def update_conv')

lemma lookup_foldl: "lookup (foldl appendValue kvs recs) k = lookup kvs k @ valuesOf k recs"
  by (induction recs arbitrary: kvs) (auto simp: lookup_appendValue valuesOf_def)

lemma keys_appendValue:
  "map fst (appendValue kvs r) =
     (if Key r \<in> set (map fst kvs) then map fst kvs else map fst kvs @ [Key r])"
  by (simp add: appendValue_def update_keys)

lemma keys_foldl:
  "set (map fst (foldl appendValue kvs recs)) = set (map fst kvs) \<union> Key ` set recs"
proof (induction recs arbitrary: kvs)
  case Nil
  show ?case by simp
next
  case (Cons r recs)
  have "set (map fst (appendValue kvs r)) = insert (Key r) (set (map fst kvs))"
    by (auto simp: keys_appendValue)
  with Cons show ?case by simp
qed

lemma distinct_foldl:
  "distinct (map fst kvs) \<Longrightarrow> distinct (map fst (foldl appendValue kvs recs))"
proof (induction recs arbitrary: kvs)
  case Nil
  then show ?case by simp
next
  case (Cons r recs)
  have "distinct (map fst (appendValue kvs r))"
    using Cons.prems by (simp add: keys_appendValue)
  with Cons.IH show ?case by simp
qed

text \<open>Whatever order the runtime visits the keys in, sorting gives the same list.\<close>

lemma sorted_keys:
  assumes "rearranges rangeOrder"
  shows "sort (rangeOrder (map fst (foldl appendValue [] recs))) = keysOf recs"
proof -
  let ?ks = "map fst (foldl appendValue [] recs)"
  have m: "mset (rangeOrder ?ks) = mset ?ks"
    using assms by (simp add: rearranges_def)
  have d: "distinct ?ks" by (rule distinct_foldl) simp
  have s: "set ?ks = Key ` set recs" using keys_foldl[of "[]" recs] by simp
  have "distinct (rangeOrder ?ks)" using m d by (metis mset_eq_imp_distinct_iff)
  moreover have "set (rangeOrder ?ks) = Key ` set recs" using m s by (metis mset_eq_setD)
  ultimately show ?thesis
    unfolding keysOf_def by (intro sorted_distinct_set_unique) simp_all
qed

lemma set_keysOf: "set (keysOf recs) = Key ` set recs"
  by (simp add: keysOf_def)

lemma distinct_keysOf: "distinct (keysOf recs)"
  by (simp add: keysOf_def)

lemma sorted_keysOf: "sorted (keysOf recs)"
  by (simp add: keysOf_def)

lemma less_string_bytes: "(a < b) = lessBytes a b"
  by (induction a b rule: lessBytes.induct) (auto simp: less_char_def)

subsection \<open>Scanning all shards\<close>

lemma scanShards_char:
  assumes "0 \<le> i" "i \<le> nMap" "length cs = nat nMap" "\<forall>c\<in>set cs. decodes c"
  shows "scanShards (map Some cs) nMap i kvs w =
           (Inr (foldl appendValue kvs (inputs (drop (nat i) cs))),
            w\<lparr>reads := reads w @ inputs (drop (nat i) cs)\<rparr>)"
  using assms
proof (induction "map Some cs" nMap i kvs w rule: scanShards.induct)
  case (1 nMap i kvs w)
  show ?case
  proof (cases "i < nMap")
    case False
    with 1 have "drop (nat i) cs = []" by simp
    with False show ?thesis by (subst scanShards.simps) (simp add: inputs_def)
  next
    case True
    with 1 have lt: "nat i < length cs" by simp
    then have nth: "map Some cs ! nat i = Some (cs ! nat i)" by simp
    have dec: "decodes (cs ! nat i)" using lt "1.prems" by simp
    have dr: "drop (nat i) cs = cs ! nat i # drop (nat (i + 1)) cs"
      using lt "1.prems" by (simp add: Cons_nth_drop_Suc nat_add_distrib)
    note sc = scan_char[OF dec, of kvs w]
    have IH: "scanShards (map Some cs) nMap (i + 1) kvs' w' =
           (Inr (foldl appendValue kvs' (inputs (drop (nat (i + 1)) cs))),
            w'\<lparr>reads := reads w' @ inputs (drop (nat (i + 1)) cs)\<rparr>)"
      if "scan (cs ! nat i) kvs w = (Inr kvs', w')" for kvs' w'
      using "1.hyps"[OF True nth that[symmetric] refl] True "1.prems" by simp
    show ?thesis
      apply (subst scanShards.simps)
      apply (simp only: True if_True nth option.case)
      apply (simp only: sc prod.case sum.case IH[OF sc])
      apply (simp add: dr inputs_def)
      done
  qed
qed

subsection \<open>Opening the shards\<close>

lemma openShards_char:
  assumes "0 \<le> i" "length cs = nat nMap" "length ds = nat nMap"
    and "\<forall>j. i \<le> j \<and> j < nMap \<longrightarrow>
           fs (reduceName jobName j reduceTask) = Some (Regular (cs ! nat j))"
  shows "openShards reduceName fs jobName reduceTask nMap i ds =
           Inr (take (nat i) ds @ map Some (drop (nat i) cs))"
  using assms
proof (induction reduceName fs jobName reduceTask nMap i ds rule: openShards.induct)
  case (1 reduceName fs jobName reduceTask nMap i ds)
  show ?case
  proof (cases "i < nMap")
    case False
    with 1 show ?thesis by (subst openShards.simps) simp
  next
    case True
    with 1 have lt: "nat i < length cs" by simp
    have op: "openRead fs (reduceName jobName i reduceTask) = Inr (cs ! nat i)"
      using "1.prems" True by (simp add: openRead_def)
    have IH: "openShards reduceName fs jobName reduceTask nMap (i + 1)
                (ds[nat i := Some (cs ! nat i)]) =
              Inr (take (nat (i + 1)) (ds[nat i := Some (cs ! nat i)]) @
                   map Some (drop (nat (i + 1)) cs))"
      using "1.IH"[OF True refl op] "1.prems" by simp
    have n1: "nat (i + 1) = Suc (nat i)" using "1.prems" by simp
    have "take (Suc (nat i)) (ds[nat i := Some (cs ! nat i)]) =
            take (nat i) ds @ [Some (cs ! nat i)]"
      using lt "1.prems" by (simp add: take_Suc_conv_app_nth)
    moreover have "drop (nat i) cs = cs ! nat i # drop (Suc (nat i)) cs"
      using lt by (simp add: Cons_nth_drop_Suc)
    ultimately show ?thesis
      apply (subst openShards.simps)
      apply (simp only: True if_True Let_def op sum.case IH n1)
      apply simp
      done
  qed
qed

text \<open>The loop stops at the first shard that does not open.\<close>

lemma openShards_fails:
  assumes "i \<le> j" "j < nMap"
    and "\<forall>c. fs (reduceName jobName j reduceTask) \<noteq> Some (Regular c)"
  shows "\<exists>m. i \<le> m \<and> m \<le> j \<and>
           openShards reduceName fs jobName reduceTask nMap i ds =
             Inl (FailedToOpen (reduceName jobName m reduceTask))"
  using assms
proof (induction reduceName fs jobName reduceTask nMap i ds rule: openShards.induct)
  case (1 reduceName fs jobName reduceTask nMap i ds)
  have lt: "i < nMap" using "1.prems" by simp
  show ?case
  proof (cases "openRead fs (reduceName jobName i reduceTask)")
    case (Inl err)
    have "openShards reduceName fs jobName reduceTask nMap i ds =
            Inl (FailedToOpen (reduceName jobName i reduceTask))"
      by (subst openShards.simps) (simp only: lt if_True Let_def Inl sum.case)
    with "1.prems" show ?thesis by auto
  next
    case (Inr fd)
    have "i \<noteq> j"
      using Inr "1.prems"(3) by (auto simp: openRead_def split: option.splits node.splits)
    with "1.prems" have le: "i + 1 \<le> j" by simp
    obtain m where m: "i + 1 \<le> m" "m \<le> j"
      "openShards reduceName fs jobName reduceTask nMap (i + 1) (ds[nat i := Some fd]) =
         Inl (FailedToOpen (reduceName jobName m reduceTask))"
      using "1.IH"[OF lt refl Inr le "1.prems"(2,3)] by blast
    have "openShards reduceName fs jobName reduceTask nMap i ds =
            Inl (FailedToOpen (reduceName jobName m reduceTask))"
      by (subst openShards.simps) (simp only: lt if_True Let_def Inr sum.case m(3))
    with m show ?thesis by (intro exI[of _ m]) simp
  qed
qed

subsection \<open>Opening the output and writing\<close>

lemma openAppend_char:
  "fs outFile \<noteq> Some Unopenable \<Longrightarrow>
   openAppend fs outFile = Inr (fs(outFile \<mapsto> Regular (content fs outFile)))"
  by (auto simp: openAppend_def content_def fun_upd_idem split: option.splits node.splits)

lemma emit_char:
  assumes "files w outFile = Some (Regular c)"
  shows "emit reduceF kvs outFile keys w =
           w\<lparr>calls := calls w @ map (\<lambda>k. (k, lookup kvs k)) keys,
             files := (files w)(outFile \<mapsto>
               Regular (c @ map (\<lambda>k. Rec \<lparr>Key = k, Value = reduceF k (lookup kvs k)\<rparr>) keys))\<rparr>"
  using assms
proof (induction keys arbitrary: w c)
  case Nil
  then show ?case by (simp add: fun_upd_idem)
next
  case (Cons k keys)
  let ?r = "\<lparr>Key = k, Value = reduceF k (lookup kvs k)\<rparr>"
  let ?w = "w\<lparr>calls := calls w @ [(k, lookup kvs k)],
              files := Encode outFile ?r (files w)\<rparr>"
  have enc: "Encode outFile ?r (files w) = (files w)(outFile \<mapsto> Regular (c @ [Rec ?r]))"
    using Cons.prems by (simp add: Encode_def)
  have f: "files ?w outFile = Some (Regular (c @ [Rec ?r]))"
    by (simp add: enc)
  have g: "(files ?w)(outFile \<mapsto> Regular ((c @ [Rec ?r]) @ rest)) =
           (files w)(outFile \<mapsto> Regular (c @ Rec ?r # rest))" for rest
    by (simp add: enc)
  have "emit reduceF kvs outFile (k # keys) w = emit reduceF kvs outFile keys ?w"
    by simp
  also have "\<dots> = ?w\<lparr>calls := calls ?w @ map (\<lambda>k. (k, lookup kvs k)) keys,
             files := (files ?w)(outFile \<mapsto>
               Regular ((c @ [Rec ?r]) @
                 map (\<lambda>k. Rec \<lparr>Key = k, Value = reduceF k (lookup kvs k)\<rparr>) keys))\<rparr>"
    by (rule Cons.IH[OF f])
  also have "\<dots> = w\<lparr>calls := calls w @ map (\<lambda>k. (k, lookup kvs k)) (k # keys),
             files := (files w)(outFile \<mapsto>
               Regular (c @
                 map (\<lambda>k. Rec \<lparr>Key = k, Value = reduceF k (lookup kvs k)\<rparr>) (k # keys)))\<rparr>"
    unfolding g by simp
  finally show ?case .
qed

subsection \<open>The whole task\<close>

text \<open>
  When every shard opens and scans to a decode error, and the output path opens, the
  task returns: it has read the records of the shards in order, called the reduce
  function once per distinct key in increasing key order, and appended their records
  to the output file.
\<close>

lemma doReduce_char:
  assumes n: "0 \<le> nMap" and len: "length cs = nat nMap"
    and shards: "\<forall>i. 0 \<le> i \<and> i < nMap \<longrightarrow>
           files w (reduceName jobName i reduceTask) = Some (Regular (cs ! nat i))"
    and dec: "\<forall>c\<in>set cs. decodes c"
    and out: "files w outFile \<noteq> Some Unopenable"
    and r: "rearranges rangeOrder"
  shows "doReduce rangeOrder reduceName jobName reduceTask outFile nMap reduceF w =
           (Returned,
            w\<lparr>reads := reads w @ inputs cs,
              calls := calls w @ invocations (inputs cs),
              files := (files w)(outFile \<mapsto>
                Regular (content (files w) outFile @ map Rec (reduced reduceF (inputs cs))))\<rparr>)"
proof -
  let ?kvs = "foldl appendValue [] (inputs cs)"
  let ?w1 = "w\<lparr>reads := reads w @ inputs cs\<rparr>"
  let ?fs' = "(files w)(outFile \<mapsto> Regular (content (files w) outFile))"
  have o: "openShards reduceName (files w) jobName reduceTask nMap 0 (replicate (nat nMap) None) =
             Inr (map Some cs)"
    using openShards_char[of 0 cs nMap "replicate (nat nMap) None" "files w"
        reduceName jobName reduceTask] len shards
    by simp
  have s: "scanShards (map Some cs) nMap 0 [] w = (Inr ?kvs, ?w1)"
    using scanShards_char[of 0 nMap cs "[]" w] n len dec by simp
  have k: "sort (rangeOrder (map fst ?kvs)) = keysOf (inputs cs)"
    by (rule sorted_keys[OF r])
  have a: "openAppend (files ?w1) outFile = Inr ?fs'"
    using openAppend_char[of "files w" outFile] out by simp
  have f: "files (?w1\<lparr>files := ?fs'\<rparr>) outFile = Some (Regular (content (files w) outFile))"
    by simp
  have e: "emit reduceF ?kvs outFile (keysOf (inputs cs)) (?w1\<lparr>files := ?fs'\<rparr>) =
             w\<lparr>reads := reads w @ inputs cs,
              calls := calls w @ invocations (inputs cs),
              files := (files w)(outFile \<mapsto>
                Regular (content (files w) outFile @ map Rec (reduced reduceF (inputs cs))))\<rparr>"
  proof -
    have l: "lookup ?kvs k = valuesOf k (inputs cs)" for k
      by (simp add: lookup_foldl) (simp add: lookup_def)
    show ?thesis
      unfolding emit_char[OF f] l
      by (simp add: invocations_def reduced_def comp_def)
  qed
  show ?thesis
    unfolding doReduce_def using n
    by (simp only: o s k a e Let_def sum.case prod.case if_False not_less[symmetric])
qed

section \<open>The examples\<close>

lemma rearranges_rev: "rearranges rev"
  by (simp add: rearranges_def)

lemma rearranges_id: "rearranges (\<lambda>ks. ks)"
  by (simp add: rearranges_def)

lemma below_two: "0 \<le> i \<and> i < 2 \<longleftrightarrow> i = 0 \<or> i = (1::int)"
  by auto

lemma worldA_shards:
  "\<forall>i. 0 \<le> i \<and> i < 2 \<longrightarrow>
     files worldA (exampleName ''job'' i 0) = Some (Regular (map Rec ([[a1, b2], [a3]] ! nat i)))"
  unfolding below_two by (auto simp: worldA_def exampleName_def)

lemma worldA_contents:
  "\<forall>i. 0 \<le> i \<and> i < 2 \<longrightarrow>
     files worldA (exampleName ''job'' i 0) = Some (Regular ([[Rec a1, Rec b2], [Rec a3]] ! nat i))"
  unfolding below_two by (auto simp: worldA_def exampleName_def)

lemma worldCorrupt_contents:
  "\<forall>i. 0 \<le> i \<and> i < 2 \<longrightarrow>
     files worldCorrupt (exampleName ''job'' i 0) =
       Some (Regular ([[Rec a1, Rec b2], [Rec a3, Corrupt, Rec b2]] ! nat i))"
  unfolding below_two by (auto simp: worldCorrupt_def exampleName_def)

lemma worldNoOutput_contents:
  "\<forall>i. 0 \<le> i \<and> i < 2 \<longrightarrow>
     files worldNoOutput (exampleName ''job'' i 0) =
       Some (Regular ([[Rec a1, Rec b2], [Rec a3]] ! nat i))"
  unfolding below_two by (auto simp: worldNoOutput_def exampleName_def)

section \<open>Properties of the task\<close>

lemma keys_reduced: "map Key (reduced reduceF recs) = keysOf recs"
  by (simp add: reduced_def comp_def)

lemma clean_shards:
  assumes "length shards = nat nMap"
    and "\<forall>i. 0 \<le> i \<and> i < nMap \<longrightarrow>
           fs (reduceName jobName i reduceTask) = Some (Regular (map Rec (shards ! nat i)))"
  shows "\<forall>i. 0 \<le> i \<and> i < nMap \<longrightarrow>
           fs (reduceName jobName i reduceTask) = Some (Regular (map (map Rec) shards ! nat i))"
proof (intro allI impI)
  fix i :: int
  assume i: "0 \<le> i \<and> i < nMap"
  then have "nat i < length shards" using assms(1) by simp
  then have "map (map Rec) shards ! nat i = map Rec (shards ! nat i)" by simp
  with assms(2) i show "fs (reduceName jobName i reduceTask) =
      Some (Regular (map (map Rec) shards ! nat i))" by simp
qed

text \<open>
  What \<open>doReduce\<close> does on shards that hold records only, whatever the order in which
  the runtime visits the keys of the map.
\<close>

lemma doReduce_clean:
  assumes "0 \<le> nMap" and "length shards = nat nMap"
    and "\<forall>i. 0 \<le> i \<and> i < nMap \<longrightarrow>
           files w (reduceName jobName i reduceTask) = Some (Regular (map Rec (shards ! nat i)))"
    and "files w outFile \<noteq> Some Unopenable"
    and "rearranges rangeOrder"
  shows "doReduce rangeOrder reduceName jobName reduceTask outFile nMap reduceF w =
           (Returned,
            w\<lparr>reads := reads w @ concat shards,
              calls := calls w @ invocations (concat shards),
              files := (files w)(outFile \<mapsto>
                Regular (content (files w) outFile @ map Rec (reduced reduceF (concat shards))))\<rparr>)"
proof -
  have dec: "\<forall>c\<in>set (map (map Rec) shards). decodes c"
    using decodes_clean by blast
  note sh = clean_shards[where fs = "files w" and reduceName = reduceName
      and jobName = jobName and reduceTask = reduceTask, OF assms(2,3)]
  have len: "length (map (map Rec) shards) = nat nMap"
    using assms(2) by simp
  from doReduce_char[where cs = "map (map Rec) shards" and w = w and reduceName = reduceName
      and jobName = jobName and reduceTask = reduceTask and reduceF = reduceF,
      OF assms(1) len sh dec assms(4,5)]
  show ?thesis by (simp add: inputs_records)
qed

text \<open>
  C1. For \<open>nMap \<ge> 0\<close> and shards that hold any records, the task returns, and the
  records it appends to the output file (all of the file when the path was absent or
  empty) carry exactly the keys that occur in some shard, each key once.
\<close>

theorem C1_output_keys:
  assumes "0 \<le> nMap" and "length shards = nat nMap"
    and "\<forall>i. 0 \<le> i \<and> i < nMap \<longrightarrow>
           files w (reduceName jobName i reduceTask) = Some (Regular (map Rec (shards ! nat i)))"
    and "files w outFile \<noteq> Some Unopenable"
    and "rearranges rangeOrder"
  shows "\<exists>w' out.
           doReduce rangeOrder reduceName jobName reduceTask outFile nMap reduceF w = (Returned, w') \<and>
           files w' outFile = Some (Regular (content (files w) outFile @ map Rec out)) \<and>
           set (map Key out) = Key ` set (concat shards) \<and>
           distinct (map Key out)"
proof -
  let ?out = "reduced reduceF (concat shards)"
  let ?w' = "w\<lparr>reads := reads w @ concat shards,
              calls := calls w @ invocations (concat shards),
              files := (files w)(outFile \<mapsto>
                Regular (content (files w) outFile @ map Rec ?out))\<rparr>"
  have run: "doReduce rangeOrder reduceName jobName reduceTask outFile nMap reduceF w =
               (Returned, ?w')"
    by (rule doReduce_clean[where shards = shards and w = w and reduceName = reduceName
        and jobName = jobName and reduceTask = reduceTask, OF assms])
  have f: "files ?w' outFile = Some (Regular (content (files w) outFile @ map Rec ?out))"
    by simp
  have k: "set (map Key ?out) = Key ` set (concat shards)"
    unfolding keys_reduced by (rule set_keysOf)
  have d: "distinct (map Key ?out)"
    unfolding keys_reduced by (rule distinct_keysOf)
  from run f k d show ?thesis by blast
qed

theorem C1_output_keys_witness:
  "\<exists>w' out.
     doReduce rev exampleName ''job'' 0 ''out'' 2 sumAsText worldA = (Returned, w') \<and>
     files w' ''out'' = Some (Regular (map Rec out)) \<and>
     set (map Key out) = {''a'', ''b''} \<and>
     distinct (map Key out)"
proof -
  have 1: "(0::int) \<le> 2" by simp
  have 2: "length [[a1, b2], [a3]] = nat 2" by simp
  have 4: "files worldA ''out'' \<noteq> Some Unopenable" by (simp add: worldA_def)
  have c: "content (files worldA) ''out'' = []" by (simp add: worldA_def content_def)
  have k: "Key ` set (concat [[a1, b2], [a3]]) = {''a'', ''b''}"
    by (auto simp: a1_def b2_def a3_def)
  show ?thesis
    using C1_output_keys[where shards = "[[a1, b2], [a3]]" and w = worldA
        and reduceName = exampleName and jobName = "''job''" and reduceTask = 0
        and reduceF = sumAsText, OF 1 2 worldA_shards 4 rearranges_rev]
    unfolding c k by simp
qed

lemma valuesOf_concat: "valuesOf k (concat shards) = concat (map (valuesOf k) shards)"
  by (induction shards) (simp_all add: valuesOf_def)

lemma invocations_of_key:
  assumes "k \<in> Key ` set recs"
  shows "filter (\<lambda>c. fst c = k) (invocations recs) = [(k, valuesOf k recs)]"
proof -
  have one: "distinct ks \<Longrightarrow> k \<in> set ks \<Longrightarrow>
      filter (\<lambda>c. fst c = k) (map (\<lambda>k. (k, f k)) ks) = [(k, f k)]"
    for ks :: "string list" and f :: "string \<Rightarrow> string list"
  proof (induction ks)
    case Nil
    then show ?case by simp
  next
    case (Cons a ks)
    show ?case
    proof (cases "a = k")
      case True
      with Cons.prems have "k \<notin> set ks" by simp
      then have "filter (\<lambda>c. fst c = k) (map (\<lambda>k. (k, f k)) ks) = []"
        by (induction ks) auto
      with True show ?thesis by simp
    next
      case False
      with Cons show ?thesis by simp
    qed
  qed
  have "k \<in> set (keysOf recs)" using assms by (simp add: set_keysOf)
  from one[OF distinct_keysOf this] show ?thesis by (simp add: invocations_def)
qed

text \<open>
  C2. On shards that hold any records, the task returns having called the reduce
  function, for every key \<open>k\<close> of the shards, exactly once with \<open>k\<close>: the calls with
  first argument \<open>k\<close> are one call, whose value list is the values of \<open>k\<close> in shard 0,
  then those in shard 1, and so on, each shard's in the order of its file. It calls
  the function with no other key, and what it appends to the output file is, call by
  call and in the order of the calls, the record of the key and of the value that the
  reduce function returns on the arguments of the call.
\<close>

theorem C2_one_call_per_key:
  assumes "0 \<le> nMap" and "length shards = nat nMap"
    and "\<forall>i. 0 \<le> i \<and> i < nMap \<longrightarrow>
           files w (reduceName jobName i reduceTask) = Some (Regular (map Rec (shards ! nat i)))"
    and "files w outFile \<noteq> Some Unopenable"
    and "rearranges rangeOrder"
  shows "\<exists>w' cl.
           doReduce rangeOrder reduceName jobName reduceTask outFile nMap reduceF w = (Returned, w') \<and>
           calls w' = calls w @ cl \<and>
           (\<forall>k \<in> Key ` set (concat shards).
              filter (\<lambda>c. fst c = k) cl =
                [(k, concat (map (\<lambda>shard. map Value (filter (\<lambda>r. Key r = k) shard)) shards))]) \<and>
           set (map fst cl) = Key ` set (concat shards) \<and>
           files w' outFile =
             Some (Regular (content (files w) outFile @
                     map (\<lambda>(k, vs). Rec \<lparr>Key = k, Value = reduceF k vs\<rparr>) cl))"
proof -
  let ?cl = "invocations (concat shards)"
  let ?w' = "w\<lparr>reads := reads w @ concat shards,
              calls := calls w @ ?cl,
              files := (files w)(outFile \<mapsto>
                Regular (content (files w) outFile @
                  map Rec (reduced reduceF (concat shards))))\<rparr>"
  have run: "doReduce rangeOrder reduceName jobName reduceTask outFile nMap reduceF w =
               (Returned, ?w')"
    by (rule doReduce_clean[where shards = shards and w = w and reduceName = reduceName
        and jobName = jobName and reduceTask = reduceTask, OF assms])
  have c: "calls ?w' = calls w @ ?cl" by simp
  have v: "valuesOf k (concat shards) =
      concat (map (\<lambda>shard. map Value (filter (\<lambda>r. Key r = k) shard)) shards)" for k
  proof -
    have "valuesOf k = (\<lambda>shard. map Value (filter (\<lambda>r. Key r = k) shard))"
      by (intro ext) (simp add: valuesOf_def)
    then show ?thesis unfolding valuesOf_concat by simp
  qed
  have once: "\<forall>k \<in> Key ` set (concat shards).
      filter (\<lambda>c. fst c = k) ?cl =
        [(k, concat (map (\<lambda>shard. map Value (filter (\<lambda>r. Key r = k) shard)) shards))]"
    using invocations_of_key[of _ "concat shards"] unfolding v by blast
  have "map fst ?cl = keysOf (concat shards)"
    by (simp add: invocations_def comp_def)
  then have only: "set (map fst ?cl) = Key ` set (concat shards)"
    by (simp only: set_keysOf)
  have "map Rec (reduced reduceF (concat shards)) =
          map (\<lambda>(k, vs). Rec \<lparr>Key = k, Value = reduceF k vs\<rparr>) ?cl"
    by (simp add: reduced_def invocations_def comp_def)
  then have f: "files ?w' outFile =
      Some (Regular (content (files w) outFile @
              map (\<lambda>(k, vs). Rec \<lparr>Key = k, Value = reduceF k vs\<rparr>) ?cl))"
    by simp
  from run c once only f show ?thesis by blast
qed

theorem C2_one_call_per_key_witness:
  "\<exists>w' cl.
     doReduce rev exampleName ''job'' 0 ''out'' 2 sumAsText worldA = (Returned, w') \<and>
     calls w' = cl \<and>
     filter (\<lambda>c. fst c = ''a'') cl = [(''a'', [''1'', ''3''])] \<and>
     filter (\<lambda>c. fst c = ''b'') cl = [(''b'', [''2''])] \<and>
     set (map fst cl) = {''a'', ''b''} \<and>
     files w' ''out'' =
       Some (Regular (map (\<lambda>(k, vs). Rec \<lparr>Key = k, Value = sumAsText k vs\<rparr>) cl))"
proof -
  have 1: "(0::int) \<le> 2" by simp
  have 2: "length [[a1, b2], [a3]] = nat 2" by simp
  have 4: "files worldA ''out'' \<noteq> Some Unopenable" by (simp add: worldA_def)
  have c: "calls worldA = []" by (simp add: worldA_def)
  have o: "content (files worldA) ''out'' = []" by (simp add: worldA_def content_def)
  have k: "Key ` set (concat [[a1, b2], [a3]]) = {''a'', ''b''}"
    by (auto simp: a1_def b2_def a3_def)
  show ?thesis
    using C2_one_call_per_key[where shards = "[[a1, b2], [a3]]" and w = worldA
        and reduceName = exampleName and jobName = "''job''" and reduceTask = 0
        and reduceF = sumAsText and outFile = "''out''",
        OF 1 2 worldA_shards 4 rearranges_rev]
    unfolding c o k by (simp add: a1_def b2_def a3_def)
qed

text \<open>
  C3. Whenever the shards open and scan to a decode error and the output path opens,
  the records the task appends to the output file are in strictly increasing order of
  key under byte-wise comparison; in particular no key is repeated.
\<close>

theorem C3_output_ascending:
  assumes "0 \<le> nMap" and "length cs = nat nMap"
    and "\<forall>i. 0 \<le> i \<and> i < nMap \<longrightarrow>
           files w (reduceName jobName i reduceTask) = Some (Regular (cs ! nat i))"
    and "\<forall>c\<in>set cs. decodes c"
    and "files w outFile \<noteq> Some Unopenable"
    and "rearranges rangeOrder"
  shows "\<exists>w' out.
           doReduce rangeOrder reduceName jobName reduceTask outFile nMap reduceF w = (Returned, w') \<and>
           files w' outFile = Some (Regular (content (files w) outFile @ map Rec out)) \<and>
           sorted_wrt lessBytes (map Key out)"
proof -
  let ?out = "reduced reduceF (inputs cs)"
  let ?w' = "w\<lparr>reads := reads w @ inputs cs,
              calls := calls w @ invocations (inputs cs),
              files := (files w)(outFile \<mapsto>
                Regular (content (files w) outFile @ map Rec ?out))\<rparr>"
  have run: "doReduce rangeOrder reduceName jobName reduceTask outFile nMap reduceF w =
               (Returned, ?w')"
    by (rule doReduce_char[where cs = cs and w = w and reduceName = reduceName
        and jobName = jobName and reduceTask = reduceTask, OF assms])
  have f: "files ?w' outFile = Some (Regular (content (files w) outFile @ map Rec ?out))"
    by simp
  have "sorted_wrt (<) (keysOf (inputs cs))"
    unfolding strict_sorted_iff using sorted_keysOf distinct_keysOf by blast
  moreover have "(<) = lessBytes"
    by (intro ext) (rule less_string_bytes)
  ultimately have s: "sorted_wrt lessBytes (map Key ?out)"
    unfolding keys_reduced by simp
  from run f s show ?thesis by blast
qed

theorem C3_output_ascending_witness:
  "\<exists>w' out.
     doReduce rev exampleName ''job'' 0 ''out'' 2 sumAsText worldCorrupt = (Returned, w') \<and>
     files w' ''out'' = Some (Regular (map Rec out)) \<and>
     sorted_wrt lessBytes (map Key out)"
proof -
  have 1: "(0::int) \<le> 2" by simp
  have 2: "length [[Rec a1, Rec b2], [Rec a3, Corrupt, Rec b2]] = nat 2" by simp
  have 3: "\<forall>c\<in>set [[Rec a1, Rec b2], [Rec a3, Corrupt, Rec b2]]. decodes c" by simp
  have 4: "files worldCorrupt ''out'' \<noteq> Some Unopenable" by (simp add: worldCorrupt_def)
  have c: "content (files worldCorrupt) ''out'' = []"
    by (simp add: worldCorrupt_def content_def)
  show ?thesis
    using C3_output_ascending[where cs = "[[Rec a1, Rec b2], [Rec a3, Corrupt, Rec b2]]"
        and w = worldCorrupt and reduceName = exampleName and jobName = "''job''"
        and reduceTask = 0 and reduceF = sumAsText,
        OF 1 2 worldCorrupt_contents 3 4 rearranges_rev]
    unfolding c by simp
qed

text \<open>
  C4. Let every shard hold some records and go on with anything on which \<open>Decode\<close>
  returns an error: nothing, the end of the file, or bytes that do not decode, with
  whatever follows them. The task returns; what it read, the calls it made and what it
  appended to the output file are those for the records before the error, the same for
  a shard that ends cleanly and for one that is truncated or corrupted there.
\<close>

theorem C4_decode_error_ends_shard:
  assumes "0 \<le> nMap" and "length good = nat nMap" and "length rest = nat nMap"
    and "\<forall>i. 0 \<le> i \<and> i < nMap \<longrightarrow>
           files w (reduceName jobName i reduceTask) =
             Some (Regular (map Rec (good ! nat i) @ rest ! nat i)) \<and>
           isl (Decode (rest ! nat i))"
    and "files w outFile \<noteq> Some Unopenable"
    and "rearranges rangeOrder"
  shows "doReduce rangeOrder reduceName jobName reduceTask outFile nMap reduceF w =
           (Returned,
            w\<lparr>reads := reads w @ concat good,
              calls := calls w @ invocations (concat good),
              files := (files w)(outFile \<mapsto>
                Regular (content (files w) outFile @ map Rec (reduced reduceF (concat good))))\<rparr>)"
proof -
  let ?cs = "map (\<lambda>(g, r). map Rec g @ r) (zip good rest)"
  have len: "length ?cs = nat nMap" using assms(2,3) by simp
  have nth: "?cs ! n = map Rec (good ! n) @ rest ! n" if "n < nat nMap" for n
    using that assms(2,3) by simp
  have sh: "\<forall>i. 0 \<le> i \<and> i < nMap \<longrightarrow>
           files w (reduceName jobName i reduceTask) = Some (Regular (?cs ! nat i))"
  proof (intro allI impI)
    fix i :: int
    assume i: "0 \<le> i \<and> i < nMap"
    then have "nat i < nat nMap" by simp
    from nth[OF this] assms(4) i
    show "files w (reduceName jobName i reduceTask) = Some (Regular (?cs ! nat i))"
      by simp
  qed
  have fails: "isl (Decode (rest ! n))" if "n < nat nMap" for n
  proof -
    have "0 \<le> int n \<and> int n < nMap" using that by simp
    with assms(4) have "isl (Decode (rest ! nat (int n)))" by blast
    then show ?thesis by simp
  qed
  have dec: "\<forall>c\<in>set ?cs. decodes c"
  proof
    fix c
    assume "c \<in> set ?cs"
    then obtain n where n: "n < length ?cs" "c = ?cs ! n"
      by (metis in_set_conv_nth)
    then have lt: "n < nat nMap" using assms(2,3) by simp
    from Decode_fails[OF fails[OF lt]] n(2) nth[OF lt]
    show "decodes c" by (simp add: decodes_records)
  qed
  have "map decoded ?cs = good"
  proof (rule nth_equalityI)
    show "length (map decoded ?cs) = length good" using assms(2,3) by simp
  next
    fix n
    assume "n < length (map decoded ?cs)"
    then have lt: "n < nat nMap" using assms(2,3) by simp
    then have "map decoded ?cs ! n = decoded (?cs ! n)" using assms(2,3) by simp
    also have "\<dots> = good ! n"
      using Decode_fails[OF fails[OF lt]] nth[OF lt] by (simp add: decoded_records)
    finally show "map decoded ?cs ! n = good ! n" .
  qed
  then have inp: "inputs ?cs = concat good" by (simp add: inputs_def)
  from doReduce_char[where cs = ?cs and w = w and reduceName = reduceName
      and jobName = jobName and reduceTask = reduceTask and reduceF = reduceF,
      OF assms(1) len sh dec assms(5,6)]
  show ?thesis unfolding inp .
qed

theorem C4_decode_error_ends_shard_witness:
  "doReduce rev exampleName ''job'' 0 ''out'' 2 sumAsText worldCorrupt =
     (Returned,
      worldCorrupt\<lparr>reads := [a1, b2, a3],
        calls := [(''a'', [''1'', ''3'']), (''b'', [''2''])],
        files := (files worldCorrupt)(''out'' \<mapsto>
          Regular [Rec \<lparr>Key = ''a'', Value = ''4''\<rparr>, Rec \<lparr>Key = ''b'', Value = ''2''\<rparr>])\<rparr>)"
proof -
  have 1: "(0::int) \<le> 2" by simp
  have 2: "length [[a1, b2], [a3]] = nat 2" by simp
  have 3: "length [[], [Corrupt, Rec b2]] = nat 2" by simp
  have 4: "\<forall>i. 0 \<le> i \<and> i < 2 \<longrightarrow>
     files worldCorrupt (exampleName ''job'' i 0) =
       Some (Regular (map Rec ([[a1, b2], [a3]] ! nat i) @ [[], [Corrupt, Rec b2]] ! nat i)) \<and>
     isl (Decode ([[], [Corrupt, Rec b2]] ! nat i))"
    unfolding below_two by (auto simp: worldCorrupt_def exampleName_def)
  have 5: "files worldCorrupt ''out'' \<noteq> Some Unopenable" by (simp add: worldCorrupt_def)
  have c: "content (files worldCorrupt) ''out'' = []"
    by (simp add: worldCorrupt_def content_def)
  have r: "reads worldCorrupt = []" "calls worldCorrupt = []"
    by (simp_all add: worldCorrupt_def)
  have i: "invocations (concat [[a1, b2], [a3]]) = [(''a'', [''1'', ''3'']), (''b'', [''2''])]"
    unfolding a1_def b2_def a3_def by code_simp
  have o: "reduced sumAsText (concat [[a1, b2], [a3]]) =
             [\<lparr>Key = ''a'', Value = ''4''\<rparr>, \<lparr>Key = ''b'', Value = ''2''\<rparr>]"
    unfolding a1_def b2_def a3_def by code_simp
  show ?thesis
    using C4_decode_error_ends_shard[where good = "[[a1, b2], [a3]]"
        and rest = "[[], [Corrupt, Rec b2]]"
        and w = worldCorrupt and reduceName = exampleName and jobName = "''job''"
        and reduceTask = 0 and reduceF = sumAsText and outFile = "''out''",
        OF 1 2 3 4 5 rearranges_rev]
    unfolding c r i o by simp
qed

text \<open>
  C5. The output file is opened without truncation, so a second run of the task on
  the same shards and the same output path appends the same records again: after the
  first run the file is its old content followed by the records, after the second the
  old content followed by the records twice, and the two differ as soon as the shards
  hold a record.
\<close>

theorem C5_second_run_appends_again:
  assumes "0 \<le> nMap" and "length cs = nat nMap"
    and "\<forall>i. 0 \<le> i \<and> i < nMap \<longrightarrow>
           files w (reduceName jobName i reduceTask) = Some (Regular (cs ! nat i))"
    and "\<forall>c\<in>set cs. decodes c"
    and "files w outFile \<noteq> Some Unopenable"
    and "\<forall>i. 0 \<le> i \<and> i < nMap \<longrightarrow> reduceName jobName i reduceTask \<noteq> outFile"
    and "rearranges rangeOrder" and "rearranges rangeOrder'"
  shows "\<exists>w1 w2.
           doReduce rangeOrder reduceName jobName reduceTask outFile nMap reduceF w = (Returned, w1) \<and>
           doReduce rangeOrder' reduceName jobName reduceTask outFile nMap reduceF w1 = (Returned, w2) \<and>
           files w1 outFile =
             Some (Regular (content (files w) outFile @ map Rec (reduced reduceF (inputs cs)))) \<and>
           files w2 outFile =
             Some (Regular (content (files w) outFile @ map Rec (reduced reduceF (inputs cs)) @
                            map Rec (reduced reduceF (inputs cs)))) \<and>
           (inputs cs \<noteq> [] \<longrightarrow> files w2 outFile \<noteq> files w1 outFile)"
proof -
  let ?out = "map Rec (reduced reduceF (inputs cs))"
  let ?old = "content (files w) outFile"
  let ?w1 = "w\<lparr>reads := reads w @ inputs cs,
              calls := calls w @ invocations (inputs cs),
              files := (files w)(outFile \<mapsto> Regular (?old @ ?out))\<rparr>"
  let ?w2 = "?w1\<lparr>reads := reads ?w1 @ inputs cs,
              calls := calls ?w1 @ invocations (inputs cs),
              files := (files ?w1)(outFile \<mapsto> Regular (content (files ?w1) outFile @ ?out))\<rparr>"
  have run1: "doReduce rangeOrder reduceName jobName reduceTask outFile nMap reduceF w =
               (Returned, ?w1)"
    by (rule doReduce_char[where cs = cs and w = w and reduceName = reduceName
        and jobName = jobName and reduceTask = reduceTask, OF assms(1,2,3,4,5,7)])
  have sh: "\<forall>i. 0 \<le> i \<and> i < nMap \<longrightarrow>
           files ?w1 (reduceName jobName i reduceTask) = Some (Regular (cs ! nat i))"
    using assms(3,6) by simp
  have o: "files ?w1 outFile \<noteq> Some Unopenable" by simp
  have run2: "doReduce rangeOrder' reduceName jobName reduceTask outFile nMap reduceF ?w1 =
               (Returned, ?w2)"
    by (rule doReduce_char[where cs = cs and w = ?w1 and reduceName = reduceName
        and jobName = jobName and reduceTask = reduceTask, OF assms(1,2) sh assms(4) o assms(8)])
  have f1: "files ?w1 outFile = Some (Regular (?old @ ?out))" by simp
  have f2: "files ?w2 outFile = Some (Regular (?old @ ?out @ ?out))"
    by (simp add: content_def)
  have ne: "inputs cs \<noteq> [] \<longrightarrow> files ?w2 outFile \<noteq> files ?w1 outFile"
  proof
    assume "inputs cs \<noteq> []"
    then have "keysOf (inputs cs) \<noteq> []"
      using set_keysOf[of "inputs cs"] by (cases "inputs cs") auto
    then have "?out \<noteq> []" by (simp add: reduced_def)
    then show "files ?w2 outFile \<noteq> files ?w1 outFile"
      unfolding f1 f2 by simp
  qed
  from run1 run2 f1 f2 ne show ?thesis by blast
qed

theorem C5_second_run_appends_again_witness:
  "\<exists>w1 w2.
     doReduce rev exampleName ''job'' 0 ''out'' 2 sumAsText worldA = (Returned, w1) \<and>
     doReduce (\<lambda>ks. ks) exampleName ''job'' 0 ''out'' 2 sumAsText w1 = (Returned, w2) \<and>
     files w1 ''out'' =
       Some (Regular [Rec \<lparr>Key = ''a'', Value = ''4''\<rparr>, Rec \<lparr>Key = ''b'', Value = ''2''\<rparr>]) \<and>
     files w2 ''out'' =
       Some (Regular [Rec \<lparr>Key = ''a'', Value = ''4''\<rparr>, Rec \<lparr>Key = ''b'', Value = ''2''\<rparr>,
                      Rec \<lparr>Key = ''a'', Value = ''4''\<rparr>, Rec \<lparr>Key = ''b'', Value = ''2''\<rparr>]) \<and>
     files w2 ''out'' \<noteq> files w1 ''out''"
proof -
  have 1: "(0::int) \<le> 2" by simp
  have 2: "length [[Rec a1, Rec b2], [Rec a3]] = nat 2" by simp
  have 3: "\<forall>c\<in>set [[Rec a1, Rec b2], [Rec a3]]. decodes c" by simp
  have 4: "files worldA ''out'' \<noteq> Some Unopenable" by (simp add: worldA_def)
  have 5: "\<forall>i. 0 \<le> i \<and> i < 2 \<longrightarrow> exampleName ''job'' i 0 \<noteq> ''out''"
    unfolding below_two by (auto simp: exampleName_def)
  have c: "content (files worldA) ''out'' = []" by (simp add: worldA_def content_def)
  have o: "reduced sumAsText (inputs [[Rec a1, Rec b2], [Rec a3]]) =
             [\<lparr>Key = ''a'', Value = ''4''\<rparr>, \<lparr>Key = ''b'', Value = ''2''\<rparr>]"
    unfolding a1_def b2_def a3_def by code_simp
  have i: "inputs [[Rec a1, Rec b2], [Rec a3]] \<noteq> []" by (simp add: inputs_def)
  show ?thesis
    using C5_second_run_appends_again[where cs = "[[Rec a1, Rec b2], [Rec a3]]"
        and w = worldA and reduceName = exampleName and jobName = "''job''"
        and reduceTask = 0 and reduceF = sumAsText and outFile = "''out''",
        OF 1 2 worldA_contents 3 4 5 rearranges_rev rearranges_id] i
    unfolding c o by simp
qed

text \<open>
  C6. If one of the \<open>nMap\<close> shard files does not open, the task panics on the first
  such file, in index order, and the state is as before the call: no file is created
  or changed, the output file among them, nothing has been decoded and the reduce
  function has not been called.
\<close>

theorem C6_unopened_shard_aborts:
  assumes "0 \<le> j" and "j < nMap"
    and "\<forall>c. files w (reduceName jobName j reduceTask) \<noteq> Some (Regular c)"
  shows "\<exists>m. 0 \<le> m \<and> m \<le> j \<and>
           doReduce rangeOrder reduceName jobName reduceTask outFile nMap reduceF w =
             (Panicked (FailedToOpen (reduceName jobName m reduceTask)), w)"
proof -
  obtain m where m: "0 \<le> m" "m \<le> j"
    "openShards reduceName (files w) jobName reduceTask nMap 0 (replicate (nat nMap) None) =
       Inl (FailedToOpen (reduceName jobName m reduceTask))"
    using openShards_fails[of 0 j nMap "files w" reduceName jobName reduceTask] assms by blast
  have "\<not> nMap < 0" using assms by simp
  then have "doReduce rangeOrder reduceName jobName reduceTask outFile nMap reduceF w =
             (Panicked (FailedToOpen (reduceName jobName m reduceTask)), w)"
    unfolding doReduce_def by (simp only: m(3) if_False sum.case)
  with m show ?thesis by blast
qed

theorem C6_unopened_shard_aborts_witness:
  "doReduce rev exampleName ''job'' 0 ''out'' 2 sumAsText worldMissing =
     (Panicked (FailedToOpen ''job-1''), worldMissing)"
proof -
  have 1: "(0::int) \<le> 1" by simp
  have 2: "(1::int) < 2" by simp
  have 3: "\<forall>c. files worldMissing (exampleName ''job'' 1 0) \<noteq> Some (Regular c)"
    by (simp add: worldMissing_def exampleName_def)
  obtain m where m: "0 \<le> m" "m \<le> 1"
    "doReduce rev exampleName ''job'' 0 ''out'' 2 sumAsText worldMissing =
       (Panicked (FailedToOpen (exampleName ''job'' m 0)), worldMissing)"
    using C6_unopened_shard_aborts[where w = worldMissing and reduceName = exampleName
        and jobName = "''job''" and reduceTask = 0, OF 1 2 3]
    by blast
  have "fst (doReduce rev exampleName ''job'' 0 ''out'' 2 sumAsText worldMissing) =
          Panicked (FailedToOpen ''job-1'')"
    by code_simp
  with m(3) have "exampleName ''job'' m 0 = ''job-1''" by simp
  with m(3) show ?thesis by simp
qed

text \<open>
  C7. With \<open>nMap = 0\<close> and no file at the output path, the task returns and the only
  change is that the output file exists, with no record in it.
\<close>

theorem C7_no_map_tasks:
  assumes "files w outFile = None" and "rearranges rangeOrder"
  shows "doReduce rangeOrder reduceName jobName reduceTask outFile 0 reduceF w =
           (Returned, w\<lparr>files := (files w)(outFile \<mapsto> Regular [])\<rparr>)"
proof -
  have o: "files w outFile \<noteq> Some Unopenable" using assms(1) by simp
  have c: "content (files w) outFile = []" using assms(1) by (simp add: content_def)
  have i: "inputs [] = []" by (simp add: inputs_def)
  have k: "keysOf [] = []" by (simp add: keysOf_def)
  have sh: "\<forall>i. 0 \<le> i \<and> i < 0 \<longrightarrow>
      files w (reduceName jobName i reduceTask) = Some (Regular ([] ! nat i))"
    by auto
  have "doReduce rangeOrder reduceName jobName reduceTask outFile 0 reduceF w =
          (Returned,
           w\<lparr>reads := reads w @ inputs [],
             calls := calls w @ invocations (inputs []),
             files := (files w)(outFile \<mapsto>
               Regular (content (files w) outFile @ map Rec (reduced reduceF (inputs []))))\<rparr>)"
    by (rule doReduce_char[where cs = "[]" and w = w and nMap = 0 and reduceName = reduceName
      and jobName = jobName and reduceTask = reduceTask, OF _ _ sh _ o assms(2)]) simp_all
  then show ?thesis by (simp add: c i k invocations_def reduced_def)
qed

theorem C7_no_map_tasks_witness:
  "doReduce rev exampleName ''job'' 0 ''out'' 0 sumAsText worldA =
     (Returned, worldA\<lparr>files := (files worldA)(''out'' \<mapsto> Regular [])\<rparr>)"
proof -
  have 1: "files worldA ''out'' = None" by (simp add: worldA_def)
  show ?thesis by (rule C7_no_map_tasks[OF 1 rearranges_rev])
qed

text \<open>
  C8. Scenario A: with two map tasks, shard 0 holding \<open>("a","1"), ("b","2")\<close>, shard 1
  holding \<open>("a","3")\<close>, no file at the output path and the reduce function that sums
  its values as text, the task returns and the output file holds \<open>("a","4")\<close>, then
  \<open>("b","2")\<close>.
\<close>

theorem C8_scenario_A:
  assumes "files w (reduceName jobName 0 reduceTask) =
             Some (Regular [Rec \<lparr>Key = ''a'', Value = ''1''\<rparr>, Rec \<lparr>Key = ''b'', Value = ''2''\<rparr>])"
    and "files w (reduceName jobName 1 reduceTask) =
             Some (Regular [Rec \<lparr>Key = ''a'', Value = ''3''\<rparr>])"
    and "files w outFile = None"
    and "rearranges rangeOrder"
  shows "\<exists>w'.
           doReduce rangeOrder reduceName jobName reduceTask outFile 2 sumAsText w = (Returned, w') \<and>
           files w' outFile =
             Some (Regular [Rec \<lparr>Key = ''a'', Value = ''4''\<rparr>, Rec \<lparr>Key = ''b'', Value = ''2''\<rparr>])"
proof -
  let ?cs = "[[Rec \<lparr>Key = ''a'', Value = ''1''\<rparr>, Rec \<lparr>Key = ''b'', Value = ''2''\<rparr>],
              [Rec \<lparr>Key = ''a'', Value = ''3''\<rparr>]]"
  let ?w' = "w\<lparr>reads := reads w @ inputs ?cs,
              calls := calls w @ invocations (inputs ?cs),
              files := (files w)(outFile \<mapsto>
                Regular (content (files w) outFile @ map Rec (reduced sumAsText (inputs ?cs))))\<rparr>"
  have 1: "(0::int) \<le> 2" by simp
  have 2: "length ?cs = nat 2" by simp
  have 3: "\<forall>i. 0 \<le> i \<and> i < 2 \<longrightarrow>
      files w (reduceName jobName i reduceTask) = Some (Regular (?cs ! nat i))"
    unfolding below_two using assms(1,2) by auto
  have 4: "\<forall>c\<in>set ?cs. decodes c" by simp
  have 5: "files w outFile \<noteq> Some Unopenable" using assms(3) by simp
  have run: "doReduce rangeOrder reduceName jobName reduceTask outFile 2 sumAsText w =
               (Returned, ?w')"
    by (rule doReduce_char[where cs = ?cs and w = w and reduceName = reduceName
        and jobName = jobName and reduceTask = reduceTask, OF 1 2 3 4 5 assms(4)])
  have c: "content (files w) outFile = []" using assms(3) by (simp add: content_def)
  have o: "reduced sumAsText (inputs ?cs) =
             [\<lparr>Key = ''a'', Value = ''4''\<rparr>, \<lparr>Key = ''b'', Value = ''2''\<rparr>]"
    by code_simp
  have f: "files ?w' outFile =
      Some (Regular [Rec \<lparr>Key = ''a'', Value = ''4''\<rparr>, Rec \<lparr>Key = ''b'', Value = ''2''\<rparr>])"
    unfolding c o by simp
  from run f show ?thesis by blast
qed

theorem C8_scenario_A_witness:
  "\<exists>w'.
     doReduce rev exampleName ''job'' 0 ''out'' 2 sumAsText worldA = (Returned, w') \<and>
     files w' ''out'' =
       Some (Regular [Rec \<lparr>Key = ''a'', Value = ''4''\<rparr>, Rec \<lparr>Key = ''b'', Value = ''2''\<rparr>])"
proof -
  have 1: "files worldA (exampleName ''job'' 0 0) =
             Some (Regular [Rec \<lparr>Key = ''a'', Value = ''1''\<rparr>, Rec \<lparr>Key = ''b'', Value = ''2''\<rparr>])"
    by (simp add: worldA_def exampleName_def a1_def b2_def)
  have 2: "files worldA (exampleName ''job'' 1 0) =
             Some (Regular [Rec \<lparr>Key = ''a'', Value = ''3''\<rparr>])"
    by (simp add: worldA_def exampleName_def a3_def)
  have 3: "files worldA ''out'' = None" by (simp add: worldA_def)
  show ?thesis
    by (rule C8_scenario_A[where w = worldA and reduceName = exampleName
        and jobName = "''job''" and reduceTask = 0, OF 1 2 3 rearranges_rev])
qed

text \<open>
  C9. Two runs of the task on the same shards with the same reduce function, each to
  an output path where there is no file, leave the same content in their output files,
  whatever the orders in which the two runs visit the keys of the map: the content is
  the records of the distinct keys in increasing key order.
\<close>

theorem C9_fresh_runs_agree:
  assumes "0 \<le> nMap" and "length cs = nat nMap"
    and "\<forall>i. 0 \<le> i \<and> i < nMap \<longrightarrow>
           files w (reduceName jobName i reduceTask) = Some (Regular (cs ! nat i))"
    and "\<forall>c\<in>set cs. decodes c"
    and "files w outFile = None" and "files w outFile' = None" and "outFile \<noteq> outFile'"
    and "rearranges rangeOrder" and "rearranges rangeOrder'"
  shows "\<exists>w1 w2.
           doReduce rangeOrder reduceName jobName reduceTask outFile nMap reduceF w = (Returned, w1) \<and>
           doReduce rangeOrder' reduceName jobName reduceTask outFile' nMap reduceF w1 = (Returned, w2) \<and>
           files w1 outFile = Some (Regular (map Rec (reduced reduceF (inputs cs)))) \<and>
           files w2 outFile' = files w1 outFile \<and>
           files w2 outFile = files w1 outFile"
proof -
  let ?out = "map Rec (reduced reduceF (inputs cs))"
  let ?w1 = "w\<lparr>reads := reads w @ inputs cs,
              calls := calls w @ invocations (inputs cs),
              files := (files w)(outFile \<mapsto> Regular (content (files w) outFile @ ?out))\<rparr>"
  let ?w2 = "?w1\<lparr>reads := reads ?w1 @ inputs cs,
              calls := calls ?w1 @ invocations (inputs cs),
              files := (files ?w1)(outFile' \<mapsto> Regular (content (files ?w1) outFile' @ ?out))\<rparr>"
  have o1: "files w outFile \<noteq> Some Unopenable" using assms(5) by simp
  have run1: "doReduce rangeOrder reduceName jobName reduceTask outFile nMap reduceF w =
               (Returned, ?w1)"
    by (rule doReduce_char[where cs = cs and w = w and reduceName = reduceName
        and jobName = jobName and reduceTask = reduceTask, OF assms(1,2,3,4) o1 assms(8)])
  have sh: "\<forall>i. 0 \<le> i \<and> i < nMap \<longrightarrow>
           files ?w1 (reduceName jobName i reduceTask) = Some (Regular (cs ! nat i))"
    using assms(3,5) by auto
  have o2: "files ?w1 outFile' \<noteq> Some Unopenable" using assms(6,7) by simp
  have run2: "doReduce rangeOrder' reduceName jobName reduceTask outFile' nMap reduceF ?w1 =
               (Returned, ?w2)"
    by (rule doReduce_char[where cs = cs and w = ?w1 and reduceName = reduceName
        and jobName = jobName and reduceTask = reduceTask, OF assms(1,2) sh assms(4) o2 assms(9)])
  have c1: "content (files w) outFile = []" using assms(5) by (simp add: content_def)
  have c2: "content (files ?w1) outFile' = []" using assms(6,7) by (simp add: content_def)
  have f1: "files ?w1 outFile = Some (Regular ?out)" by (simp add: c1)
  have f2: "files ?w2 outFile' = files ?w1 outFile" unfolding c2 by (simp add: c1)
  have f3: "files ?w2 outFile = files ?w1 outFile" using assms(7) by simp
  from run1 run2 f1 f2 f3 show ?thesis by blast
qed

theorem C9_fresh_runs_agree_witness:
  "\<exists>w1 w2.
     doReduce rev exampleName ''job'' 0 ''out'' 2 sumAsText worldA = (Returned, w1) \<and>
     doReduce (\<lambda>ks. ks) exampleName ''job'' 0 ''out2'' 2 sumAsText w1 = (Returned, w2) \<and>
     files w1 ''out'' =
       Some (Regular [Rec \<lparr>Key = ''a'', Value = ''4''\<rparr>, Rec \<lparr>Key = ''b'', Value = ''2''\<rparr>]) \<and>
     files w2 ''out2'' = files w1 ''out'' \<and>
     files w2 ''out'' = files w1 ''out''"
proof -
  have 1: "(0::int) \<le> 2" by simp
  have 2: "length [[Rec a1, Rec b2], [Rec a3]] = nat 2" by simp
  have 3: "\<forall>c\<in>set [[Rec a1, Rec b2], [Rec a3]]. decodes c" by simp
  have 4: "files worldA ''out'' = None" by (simp add: worldA_def)
  have 5: "files worldA ''out2'' = None" by (simp add: worldA_def)
  have 6: "''out'' \<noteq> ''out2''" by simp
  have o: "reduced sumAsText (inputs [[Rec a1, Rec b2], [Rec a3]]) =
             [\<lparr>Key = ''a'', Value = ''4''\<rparr>, \<lparr>Key = ''b'', Value = ''2''\<rparr>]"
    unfolding a1_def b2_def a3_def by code_simp
  show ?thesis
    using C9_fresh_runs_agree[where cs = "[[Rec a1, Rec b2], [Rec a3]]"
        and w = worldA and reduceName = exampleName and jobName = "''job''"
        and reduceTask = 0 and reduceF = sumAsText,
        OF 1 2 worldA_contents 3 4 5 6 rearranges_rev rearranges_id]
    unfolding o by simp
qed

text \<open>
  C10. If every shard opens and scans to a decode error but the output file does not
  open, the task panics there. By then it has decoded all the records of the shards;
  no file is created or changed, the output path among them, and the reduce function
  has not been called.
\<close>

theorem C10_unopened_output_aborts:
  assumes "0 \<le> nMap" and "length cs = nat nMap"
    and "\<forall>i. 0 \<le> i \<and> i < nMap \<longrightarrow>
           files w (reduceName jobName i reduceTask) = Some (Regular (cs ! nat i))"
    and "\<forall>c\<in>set cs. decodes c"
    and "files w outFile = Some Unopenable"
  shows "doReduce rangeOrder reduceName jobName reduceTask outFile nMap reduceF w =
           (Panicked (FailedToOpen outFile), w\<lparr>reads := reads w @ inputs cs\<rparr>)"
proof -
  let ?kvs = "foldl appendValue [] (inputs cs)"
  let ?w1 = "w\<lparr>reads := reads w @ inputs cs\<rparr>"
  have o: "openShards reduceName (files w) jobName reduceTask nMap 0 (replicate (nat nMap) None) =
             Inr (map Some cs)"
    using openShards_char[of 0 cs nMap "replicate (nat nMap) None" "files w"
        reduceName jobName reduceTask] assms(2,3)
    by simp
  have s: "scanShards (map Some cs) nMap 0 [] w = (Inr ?kvs, ?w1)"
    using scanShards_char[of 0 nMap cs "[]" w] assms(1,2,4) by simp
  have a: "openAppend (files ?w1) outFile = Inl Denied"
    using assms(5) by (simp add: openAppend_def)
  show ?thesis
    unfolding doReduce_def using assms(1)
    by (simp only: o s a Let_def sum.case prod.case if_False not_less[symmetric])
qed

theorem C10_unopened_output_aborts_witness:
  "doReduce rev exampleName ''job'' 0 ''out'' 2 sumAsText worldNoOutput =
     (Panicked (FailedToOpen ''out''), worldNoOutput\<lparr>reads := [a1, b2, a3]\<rparr>)"
proof -
  have 1: "(0::int) \<le> 2" by simp
  have 2: "length [[Rec a1, Rec b2], [Rec a3]] = nat 2" by simp
  have 3: "\<forall>c\<in>set [[Rec a1, Rec b2], [Rec a3]]. decodes c" by simp
  have 4: "files worldNoOutput ''out'' = Some Unopenable" by (simp add: worldNoOutput_def)
  have r: "reads worldNoOutput = []" by (simp add: worldNoOutput_def)
  show ?thesis
    using C10_unopened_output_aborts[where cs = "[[Rec a1, Rec b2], [Rec a3]]"
        and w = worldNoOutput and reduceName = exampleName and jobName = "''job''"
        and reduceTask = 0, OF 1 2 worldNoOutput_contents 3 4]
    unfolding r by (simp add: inputs_def)
qed

end
